theory Spec2Isabelle
  imports Main
begin

section \<open>Data model\<close>

text \<open>
  Go's \<^verbatim>\<open>error\<close> is an interface value; \<^verbatim>\<open>nil\<close> is \<open>None\<close>, any other error is
  identified by its message.
\<close>

type_synonym error = "string option"

text \<open>\<^verbatim>\<open>type payload[T any] struct { val T; err error }\<close>\<close>

record 'a payload =
  val :: 'a
  err :: error

text \<open>
  The zero value of \<^verbatim>\<open>payload[T]\<close>: the zero of \<^verbatim>\<open>T\<close> and a nil error. It is what a
  struct literal leaves in the fields it does not name, and what a receive from a closed
  channel yields.
\<close>

definition zero_payload :: "('a::zero) payload" where
  "zero_payload = \<lparr>val = 0, err = None\<rparr>"

text \<open>
  \<^verbatim>\<open>type Future[T any] chan payload[T]\<close>: a future is a channel, here the index of
  the channel in the table of channels of the running program.
\<close>

type_synonym Future = nat

text \<open>\<^verbatim>\<open>type Optional[T any] struct { Present bool; Value T; Err error }\<close>\<close>

record 'a Optional =
  Present :: bool
  OptValue :: 'a
  Err :: error

text \<open>\<^verbatim>\<open>const zeroDuration = 0 * time.Nanosecond\<close>\<close>

definition zeroDuration :: nat where
  "zeroDuration = 0 * 1"

text \<open>
  A \<^verbatim>\<open>context.Context\<close> of the standard library: \<^verbatim>\<open>context.Background()\<close>, which
  is never done, or a cancellable context (from \<^verbatim>\<open>WithCancel\<close>, \<^verbatim>\<open>WithTimeout\<close>,
  \<^verbatim>\<open>WithDeadline\<close>) identified by a number.
\<close>

datatype Context = Background | Cancellable nat

section \<open>Goroutines\<close>

text \<open>
  What a goroutine has left to do, as a tree of the channel operations the source uses,
  each with its continuation:
  \<^item> \<open>Done\<close>: the goroutine's function has returned;
  \<^item> \<open>Return2\<close>, \<open>Return3\<close>, \<open>ReturnOpt\<close>: it has returned with these results;
  \<^item> \<open>Panic\<close>: it has panicked; unless the panic is recovered the runtime then stops the
    whole program, which the model does not show: the other goroutines are left as they
    are;
  \<^item> \<open>Tau\<close>: one step of local computation (a \<^verbatim>\<open>time.Sleep\<close>, say);
  \<^item> \<open>Make\<close>: \<^verbatim>\<open>make(chan payload[T])\<close>, an unbuffered channel;
  \<^item> \<open>Go\<close>: the \<^verbatim>\<open>go\<close> statement;
  \<^item> \<open>Send\<close>: \<^verbatim>\<open>f <- p\<close>;
  \<^item> \<open>Close\<close>: \<^verbatim>\<open>close(f)\<close>;
  \<^item> \<open>Recv\<close>: \<^verbatim>\<open><-f\<close>;
  \<^item> \<open>After\<close>: \<^verbatim>\<open>time.After(t)\<close>, evaluated on entering a \<^verbatim>\<open>select\<close>; the
    continuation gets the instant at which the timer's channel becomes ready;
  \<^item> \<open>Select_Timer\<close>: \<^verbatim>\<open>select { case p := <-f: ...; case <-timer: ... }\<close>;
  \<^item> \<open>Select_Done\<close>: \<^verbatim>\<open>select { case p := <-f: ...; case <-ctx.Done(): ... }\<close>,
    whose second continuation gets \<^verbatim>\<open>ctx.Err()\<close>.
\<close>

datatype 'a prog =
    Done
  | Return2 "'a \<times> error"
  | Return3 "'a \<times> error \<times> bool"
  | ReturnOpt "'a Optional"
  | Panic
  | Tau "'a prog"
  | Make "Future \<Rightarrow> 'a prog"
  | Go "'a prog" "'a prog"
  | Send Future "'a payload" "'a prog"
  | Close Future "'a prog"
  | Recv Future "'a payload \<Rightarrow> 'a prog"
  | After nat "nat \<Rightarrow> 'a prog"
  | Select_Timer Future nat "'a payload \<Rightarrow> 'a prog" "'a prog"
  | Select_Done Future Context "'a payload \<Rightarrow> 'a prog" "error \<Rightarrow> 'a prog"

section \<open>The library\<close>

text \<open>
  Every function of the library takes, after its Go arguments, the continuation \<open>k\<close> of
  its caller: what the calling goroutine does with the results once the call returns.
\<close>

text \<open>\<^verbatim>\<open>func NewFuture[T any]() Future[T] { return make(chan payload[T]) }\<close>\<close>

definition NewFuture :: "(Future \<Rightarrow> 'a prog) \<Rightarrow> 'a prog" where
  "NewFuture k = Make k"

text \<open>\<^verbatim>\<open>func (f Future[T]) sendAndClose(p payload[T]) { f <- p; close(f) }\<close>\<close>

definition sendAndClose :: "Future \<Rightarrow> 'a payload \<Rightarrow> 'a prog \<Rightarrow> 'a prog" where
  "sendAndClose f p k = Send f p (Close f k)"

text \<open>\<^verbatim>\<open>f.sendAndClose(payload[T]{val: value, err: err})\<close>\<close>

definition Resolve :: "Future \<Rightarrow> 'a \<Rightarrow> error \<Rightarrow> 'a prog \<Rightarrow> 'a prog" where
  "Resolve f value e k = sendAndClose f \<lparr>val = value, err = e\<rparr> k"

text \<open>\<^verbatim>\<open>f.sendAndClose(payload[T]{val: value})\<close>\<close>

definition Value :: "Future \<Rightarrow> ('a::zero) \<Rightarrow> 'a prog \<Rightarrow> 'a prog" where
  "Value f value k = sendAndClose f (zero_payload\<lparr>val := value\<rparr>) k"

text \<open>\<^verbatim>\<open>f.sendAndClose(payload[T]{err: err})\<close>\<close>

definition Error :: "Future \<Rightarrow> error \<Rightarrow> ('a::zero) prog \<Rightarrow> 'a prog" where
  "Error f e k = sendAndClose f (zero_payload\<lparr>err := e\<rparr>) k"

text \<open>
  \<^verbatim>\<open>f := NewFuture[T](); go func() { f.Resolve(provider()) }(); return f\<close>.
  The provider is Go code that hands its two results to its continuation.
\<close>

definition Async :: "(('a \<times> error \<Rightarrow> 'a prog) \<Rightarrow> 'a prog) \<Rightarrow> (Future \<Rightarrow> 'a prog) \<Rightarrow> 'a prog" where
  "Async provider k =
     NewFuture (\<lambda>f. Go (provider (\<lambda>(v, e). Resolve f v e Done)) (k f))"

text \<open>\<^verbatim>\<open>payload := <-f; return payload.val, payload.err\<close> (gfuture.go)\<close>

definition Await :: "Future \<Rightarrow> ('a \<times> error \<Rightarrow> 'a prog) \<Rightarrow> 'a prog" where
  "Await f k = Recv f (\<lambda>payload. k (val payload, err payload))"

text \<open>
  \<^verbatim>\<open>select {
  case payload := <-f: return payload.val, payload.err, true
  case <-time.After(t): var zero T; return zero, nil, false }\<close>
\<close>

definition AwaitWithTimeout ::
  "Future \<Rightarrow> nat \<Rightarrow> (('a::zero) \<times> error \<times> bool \<Rightarrow> 'a prog) \<Rightarrow> 'a prog" where
  "AwaitWithTimeout f t k =
     After t (\<lambda>timer.
       Select_Timer f timer
         (\<lambda>payload. k (val payload, err payload, True))
         (k (0, None, False)))"

text \<open>
  \<^verbatim>\<open>val, err, present := f.AwaitWithTimeout(zeroDuration)
  return Optional[T]{Present: present, Value: val, Err: err}\<close>
\<close>

definition Get :: "Future \<Rightarrow> (('a::zero) Optional \<Rightarrow> 'a prog) \<Rightarrow> 'a prog" where
  "Get f k =
     AwaitWithTimeout f zeroDuration
       (\<lambda>(v, e, present). k \<lparr>Present = present, OptValue = v, Err = e\<rparr>)"

text \<open>\<^verbatim>\<open>go func() { consumer(f.Await()) }()\<close> (gfuture.go)\<close>

definition Then :: "Future \<Rightarrow> ('a \<Rightarrow> error \<Rightarrow> 'a prog \<Rightarrow> 'a prog) \<Rightarrow> 'a prog \<Rightarrow> 'a prog" where
  "Then f consumer k = Go (Await f (\<lambda>(v, e). consumer v e Done)) k"

text \<open>
  The variant with a context:
  \<^verbatim>\<open>select {
  case payload := <-f: return payload.val, payload.err
  case <-ctx.Done(): var zero T; return zero, ctx.Err() }\<close>
\<close>

definition Await_ctx :: "Future \<Rightarrow> Context \<Rightarrow> (('a::zero) \<times> error \<Rightarrow> 'a prog) \<Rightarrow> 'a prog" where
  "Await_ctx f ctx k =
     Select_Done f ctx
       (\<lambda>payload. k (val payload, err payload))
       (\<lambda>ctx_err. k (0, ctx_err))"

text \<open>\<^verbatim>\<open>go func() { consumer(f.Await(ctx)) }()\<close>\<close>

definition Then_ctx ::
  "Future \<Rightarrow> Context \<Rightarrow> (('a::zero) \<Rightarrow> error \<Rightarrow> 'a prog \<Rightarrow> 'a prog) \<Rightarrow> 'a prog \<Rightarrow> 'a prog" where
  "Then_ctx f ctx consumer k = Go (Await_ctx f ctx (\<lambda>(v, e). consumer v e Done)) k"

section \<open>The running program\<close>

text \<open>
  The goroutines, the channels made so far (for each, whether it has been closed), the
  clock, and for each cancellable context the error it was cancelled with, if it was.
\<close>

record 'a state =
  threads :: "'a prog list"
  chans :: "bool list"
  now :: nat
  cancelled :: "nat \<Rightarrow> error"

definition is_open :: "'a state \<Rightarrow> Future \<Rightarrow> bool" where
  "is_open s f = (f < length (chans s) \<and> \<not> chans s ! f)"

definition is_closed :: "'a state \<Rightarrow> Future \<Rightarrow> bool" where
  "is_closed s f = (f < length (chans s) \<and> chans s ! f)"

text \<open>\<^verbatim>\<open>ctx.Err()\<close>: nil until the context is done.\<close>

fun ctx_Err :: "'a state \<Rightarrow> Context \<Rightarrow> error" where
  "ctx_Err s Background = None"
| "ctx_Err s (Cancellable n) = cancelled s n"

text \<open>The channel a goroutine is ready to receive from, with what it does with the value.\<close>

fun receiving :: "'a prog \<Rightarrow> (Future \<times> ('a payload \<Rightarrow> 'a prog)) option" where
  "receiving (Recv f k) = Some (f, k)"
| "receiving (Select_Timer f timer k kt) = Some (f, k)"
| "receiving (Select_Done f ctx k kd) = Some (f, k)"
| "receiving _ = None"

definition set_thread :: "nat \<Rightarrow> 'a prog \<Rightarrow> 'a state \<Rightarrow> 'a state" where
  "set_thread i c s = s\<lparr>threads := (threads s)[i := c]\<rparr>"

text \<open>
  What the scheduler, the clock and the owners of the contexts can do:
  \<^item> \<open>Run i\<close>: goroutine \<open>i\<close> takes a step of its own;
  \<^item> \<open>Sync i j\<close>: the send of goroutine \<open>i\<close> meets the receive of goroutine \<open>j\<close>;
  \<^item> \<open>Timeout i\<close>: the \<^verbatim>\<open>select\<close> of goroutine \<open>i\<close> takes its timer case;
  \<^item> \<open>CtxDone i\<close>: the \<^verbatim>\<open>select\<close> of goroutine \<open>i\<close> takes its \<^verbatim>\<open>ctx.Done()\<close> case;
  \<^item> \<open>Tick\<close>: time passes;
  \<^item> \<open>Cancel n reason\<close>: context \<open>n\<close> is cancelled, or its deadline passes.
\<close>

datatype event = Run nat | Sync nat nat | Timeout nat | CtxDone nat | Tick | Cancel nat string

text \<open>
  A step of goroutine \<open>i\<close> alone, by the rules of the language: a send on a closed channel
  and a close of a closed or nil channel panic; a receive from a closed channel yields the
  zero value at once; a send or a receive on an open unbuffered channel waits for its
  partner (\<open>None\<close>: no step). A channel that was never made is a nil channel: a send or
  a receive on it waits for ever.
\<close>

fun run_thread :: "nat \<Rightarrow> ('a::zero) prog \<Rightarrow> 'a state \<Rightarrow> 'a state option" where
  "run_thread i (Tau k) s = Some (set_thread i k s)"
| "run_thread i (Make k) s =
     Some (s\<lparr>threads := (threads s)[i := k (length (chans s))], chans := chans s @ [False]\<rparr>)"
| "run_thread i (Go child k) s = Some (s\<lparr>threads := (threads s)[i := k] @ [child]\<rparr>)"
| "run_thread i (Send f p k) s =
     (if is_closed s f then Some (set_thread i Panic s) else None)"
| "run_thread i (Close f k) s =
     (if is_open s f then Some (s\<lparr>threads := (threads s)[i := k], chans := (chans s)[f := True]\<rparr>)
      else Some (set_thread i Panic s))"
| "run_thread i (Recv f k) s =
     (if is_closed s f then Some (set_thread i (k zero_payload) s) else None)"
| "run_thread i (After t k) s = Some (set_thread i (k (now s + t)) s)"
| "run_thread i (Select_Timer f timer k kt) s =
     (if is_closed s f then Some (set_thread i (k zero_payload) s) else None)"
| "run_thread i (Select_Done f ctx k kd) s =
     (if is_closed s f then Some (set_thread i (k zero_payload) s) else None)"
| "run_thread i _ s = None"

text \<open>
  One event. A \<^verbatim>\<open>select\<close> with several ready cases takes any of them: each is an event
  that can happen. A timer is ready from its instant on, and a context from its
  cancellation on.
\<close>

fun exec :: "event \<Rightarrow> ('a::zero) state \<Rightarrow> 'a state option" where
  "exec (Run i) s = (if i < length (threads s) then run_thread i (threads s ! i) s else None)"
| "exec (Sync i j) s =
     (if i < length (threads s) \<and> j < length (threads s) \<and> i \<noteq> j then
        (case threads s ! i of
           Send f p k \<Rightarrow>
             (case receiving (threads s ! j) of
                Some (g, kr) \<Rightarrow>
                  if g = f \<and> is_open s f
                  then Some (s\<lparr>threads := (threads s)[i := k, j := kr p]\<rparr>)
                  else None
              | None \<Rightarrow> None)
         | _ \<Rightarrow> None)
      else None)"
| "exec (Timeout i) s =
     (if i < length (threads s) then
        (case threads s ! i of
           Select_Timer f timer k kt \<Rightarrow>
             if timer \<le> now s then Some (set_thread i kt s) else None
         | _ \<Rightarrow> None)
      else None)"
| "exec (CtxDone i) s =
     (if i < length (threads s) then
        (case threads s ! i of
           Select_Done f ctx k kd \<Rightarrow>
             (case ctx_Err s ctx of
                Some reason \<Rightarrow> Some (set_thread i (kd (Some reason)) s)
              | None \<Rightarrow> None)
         | _ \<Rightarrow> None)
      else None)"
| "exec Tick s = Some (s\<lparr>now := Suc (now s)\<rparr>)"
| "exec (Cancel n reason) s =
     (case cancelled s n of
        None \<Rightarrow> Some (s\<lparr>cancelled := (cancelled s)(n := Some reason)\<rparr>)
      | Some r \<Rightarrow> None)"

text \<open>A schedule, event after event; \<open>None\<close> when one of them cannot happen.\<close>

fun run :: "event list \<Rightarrow> ('a::zero) state \<Rightarrow> 'a state option" where
  "run [] s = Some s"
| "run (ev # evs) s = (case exec ev s of None \<Rightarrow> None | Some s' \<Rightarrow> run evs s')"

text \<open>A program starts as one goroutine, with no channel made and no context cancelled.\<close>

definition start :: "'a prog \<Rightarrow> 'a state" where
  "start main = \<lparr>threads = [main], chans = [], now = 0, cancelled = (\<lambda>n. None)\<rparr>"

text \<open>The goroutines an event moves.\<close>

fun moves :: "event \<Rightarrow> nat \<Rightarrow> bool" where
  "moves (Run i) m = (i = m)"
| "moves (Sync i j) m = (i = m \<or> j = m)"
| "moves (Timeout i) m = (i = m)"
| "moves (CtxDone i) m = (i = m)"
| "moves Tick m = False"
| "moves (Cancel n reason) m = False"

text \<open>
  Goroutine \<open>i\<close> can go on: some event that moves it can happen now. Otherwise it is
  blocked.
\<close>

definition enabled :: "('a::zero) state \<Rightarrow> nat \<Rightarrow> bool" where
  "enabled s i =
     (exec (Run i) s \<noteq> None \<or> exec (Timeout i) s \<noteq> None \<or> exec (CtxDone i) s \<noteq> None \<or>
      (\<exists>j \<in> set [0..<length (threads s)]. exec (Sync i j) s \<noteq> None \<or> exec (Sync j i) s \<noteq> None))"

text \<open>
  Goroutine \<open>i\<close> is not blocked, and will not be for as long as it stays where it is,
  whatever the other goroutines, the clock and the contexts do meanwhile.
\<close>

definition stays_enabled :: "('a::zero) state \<Rightarrow> nat \<Rightarrow> bool" where
  "stays_enabled s i =
     (\<forall>evs t. run evs s = Some t \<and> threads t ! i = threads s ! i \<longrightarrow> enabled t i)"

text \<open>The channel a goroutine is waiting to send on.\<close>

fun sending :: "'a prog \<Rightarrow> Future option" where
  "sending (Send f p k) = Some f"
| "sending _ = None"

text \<open>
  A future that has been made and not resolved: the channel is open and no goroutine is
  in a \<open>Resolve\<close> on it, waiting to send.
\<close>

definition unresolved :: "'a state \<Rightarrow> Future \<Rightarrow> bool" where
  "unresolved s f = (is_open s f \<and> list_all (\<lambda>c. sending c \<noteq> Some f) (threads s))"

section \<open>Programs that use the library\<close>

text \<open>
  A future resolved twice by the goroutine that made it, and awaited once:
  \<^verbatim>\<open>f := NewFuture[int](); go func() { return f.Await() }(); f.Resolve(1, nil); f.Resolve(2, nil)\<close>
\<close>

definition resolve_twice :: "int prog" where
  "resolve_twice =
     NewFuture (\<lambda>f. Go (Await f Return2) (Resolve f 1 None (Resolve f 2 None Done)))"

text \<open>
  A goroutine resolves the future with a value and then awaits it itself, while the
  goroutine that made the future awaits it too:
  \<^verbatim>\<open>f := NewFuture[int](); go func() { f.Value(42); return f.Await() }(); return f.Await()\<close>
\<close>

definition value_then_await :: "int prog" where
  "value_then_await =
     NewFuture (\<lambda>f. Go (Value f 42 (Await f Return2)) (Await f Return2))"

text \<open>
  The same with an error:
  \<^verbatim>\<open>f := NewFuture[int](); go func() { f.Error(boom); return f.Await() }(); return f.Await()\<close>
\<close>

definition error_then_await :: "int prog" where
  "error_then_await =
     NewFuture (\<lambda>f. Go (Error f (Some ''boom'') (Await f Return2)) (Await f Return2))"

text \<open>
  \<^verbatim>\<open>f := NewFuture[int](); f.Resolve(42, nil); return f.Await()\<close>
\<close>

definition resolve_alone :: "int prog" where
  "resolve_alone = NewFuture (\<lambda>f. Resolve f 42 None (Await f Return2))"

text \<open>
  Six goroutines, each about to call one operation, on two open futures; nobody is
  receiving from future 1 and nobody is sending on future 0.
\<close>

definition all_operations :: "int state" where
  "all_operations =
     \<lparr>threads = [Then 0 (\<lambda>v e k. k) Done, Then_ctx 0 Background (\<lambda>v e k. k) Done,
                 Async (\<lambda>k. k (42, None)) (\<lambda>f. Done), Get 0 ReturnOpt,
                 Resolve 1 42 None Done, Await 0 Return2],
      chans = [False, False], now = 0, cancelled = (\<lambda>n. None)\<rparr>"

text \<open>
  An await under a context that is cancelled while nobody resolves the future:
  \<^verbatim>\<open>f := NewFuture[int](); return f.Await(ctx)\<close>
\<close>

definition await_cancellable :: "int prog" where
  "await_cancellable = NewFuture (\<lambda>f. Await_ctx f (Cancellable 0) Return2)"

text \<open>
  A continuation registered on a future that the same goroutine then resolves; the
  consumer keeps what it is given:
  \<^verbatim>\<open>f := NewFuture[int](); f.Then(ctx, consumer); f.Resolve(42, nil)\<close>
\<close>

definition then_resolve :: "int prog" where
  "then_resolve =
     NewFuture (\<lambda>f. Then_ctx f Background (\<lambda>v e k. Return2 (v, e)) (Resolve f 42 None Done))"



text \<open>
  A goroutine in \<open>Resolve\<close> on an open future, and a second goroutine that is about to
  await it.
\<close>

definition resolver_waiting :: "int state" where
  "resolver_waiting =
     \<lparr>threads = [Resolve 0 7 (Some ''failed'') Done, Done], chans = [False], now = 3,
      cancelled = (\<lambda>n. None)\<rparr>"

text \<open>
  Two continuations registered on one future, which the same goroutine then resolves;
  each consumer keeps what it is given:
  \<^verbatim>\<open>f := NewFuture[int](); f.Then(ctx, c1); f.Then(ctx, c2); f.Resolve(42, nil)\<close>
\<close>

definition two_thens :: "int prog" where
  "two_thens =
     NewFuture (\<lambda>f.
       Then_ctx f Background (\<lambda>v e k. Return2 (v, e))
         (Then_ctx f Background (\<lambda>v e k. Return2 (v, e)) (Resolve f 42 None Done)))"

section \<open>Facts about steps\<close>

lemma exec_Sync_bounds: "exec (Sync a b) s = Some s' \<Longrightarrow> a < length (threads s) \<and> b < length (threads s) \<and> a \<noteq> b"
  by (simp split: if_splits)

lemma enabled_iff: "enabled s i \<longleftrightarrow> (\<exists>ev. moves ev i \<and> exec ev s \<noteq> None)"
proof
  assume "enabled s i"
  then consider "exec (Run i) s \<noteq> None" | "exec (Timeout i) s \<noteq> None" | "exec (CtxDone i) s \<noteq> None"
    | j where "exec (Sync i j) s \<noteq> None" | j where "exec (Sync j i) s \<noteq> None"
    unfolding enabled_def by blast
  then show "\<exists>ev. moves ev i \<and> exec ev s \<noteq> None"
  proof cases
    case 1 then show ?thesis using moves.simps(1) by blast
  next
    case 2 then show ?thesis using moves.simps(3) by blast
  next
    case 3 then show ?thesis using moves.simps(4) by blast
  next
    case 4 then show ?thesis using moves.simps(2) by blast
  next
    case 5 then show ?thesis using moves.simps(2) by blast
  qed
next
  assume "\<exists>ev. moves ev i \<and> exec ev s \<noteq> None"
  then obtain ev where ev: "moves ev i" "exec ev s \<noteq> None" by blast
  show "enabled s i"
  proof (cases ev)
    case (Run a)
    with ev show ?thesis unfolding enabled_def by simp
  next
    case (Sync a b)
    with ev obtain s' where s': "exec (Sync a b) s = Some s'" by blast
    from exec_Sync_bounds[OF s'] have b: "a \<in> set [0..<length (threads s)]" "b \<in> set [0..<length (threads s)]" by simp_all
    from ev Sync have "a = i \<or> b = i" by simp
    then show ?thesis
    proof
      assume "a = i"
      with s' b show ?thesis unfolding enabled_def by blast
    next
      assume "b = i"
      with s' b show ?thesis unfolding enabled_def by blast
    qed
  next
    case (Timeout a)
    with ev show ?thesis unfolding enabled_def by simp
  next
    case (CtxDone a)
    with ev show ?thesis unfolding enabled_def by simp
  next
    case Tick
    with ev show ?thesis by simp
  next
    case (Cancel n r)
    with ev show ?thesis by simp
  qed
qed

lemma run_thread_other:
  "run_thread i c s = Some s' \<Longrightarrow> m \<noteq> i \<Longrightarrow> m < length (threads s) \<Longrightarrow> threads s' ! m = threads s ! m"
  by (cases c) (auto simp: set_thread_def nth_append split: if_splits)

lemma exec_other:
  assumes "exec ev s = Some s'" "\<not> moves ev m" "m < length (threads s)"
  shows "threads s' ! m = threads s ! m"
proof (cases ev)
  case (Run i)
  with assms show ?thesis by (auto split: if_splits dest: run_thread_other)
next
  case (Sync i j)
  with assms show ?thesis
    by (auto split: if_splits prog.splits option.splits)
next
  case (Timeout i)
  with assms show ?thesis
    by (auto simp: set_thread_def split: if_splits prog.splits)
next
  case (CtxDone i)
  with assms show ?thesis
    by (auto simp: set_thread_def split: if_splits prog.splits option.splits)
next
  case Tick
  with assms show ?thesis by auto
next
  case (Cancel n r)
  with assms show ?thesis by (auto split: option.splits)
qed

lemma run_thread_length:
  "run_thread i c s = Some s' \<Longrightarrow> length (threads s) \<le> length (threads s')"
  by (cases c) (auto simp: set_thread_def split: if_splits)

lemma exec_length:
  assumes "exec ev s = Some s'"
  shows "length (threads s) \<le> length (threads s')"
proof (cases ev)
  case (Run i)
  with assms show ?thesis by (auto split: if_splits dest: run_thread_length)
next
  case (Sync i j)
  with assms show ?thesis
    by (auto split: if_splits prog.splits option.splits)
next
  case (Timeout i)
  with assms show ?thesis
    by (auto simp: set_thread_def split: if_splits prog.splits)
next
  case (CtxDone i)
  with assms show ?thesis
    by (auto simp: set_thread_def split: if_splits prog.splits option.splits)
next
  case Tick
  with assms show ?thesis by auto
next
  case (Cancel n r)
  with assms show ?thesis by (auto split: option.splits)
qed

lemma run_thread_closed:
  "run_thread i c s = Some s' \<Longrightarrow> is_closed s f \<Longrightarrow> is_closed s' f"
  by (cases c) (auto simp: set_thread_def is_closed_def is_open_def nth_append nth_list_update split: if_splits)

lemma exec_closed:
  assumes "exec ev s = Some s'" "is_closed s f"
  shows "is_closed s' f"
proof (cases ev)
  case (Run i)
  with assms show ?thesis by (auto split: if_splits dest: run_thread_closed)
next
  case (Sync i j)
  with assms show ?thesis
    by (auto simp: is_closed_def split: if_splits prog.splits option.splits)
next
  case (Timeout i)
  with assms show ?thesis
    by (auto simp: set_thread_def is_closed_def split: if_splits prog.splits)
next
  case (CtxDone i)
  with assms show ?thesis
    by (auto simp: set_thread_def is_closed_def split: if_splits prog.splits option.splits)
next
  case Tick
  with assms show ?thesis by (auto simp: is_closed_def)
next
  case (Cancel n r)
  with assms show ?thesis by (auto simp: is_closed_def split: option.splits)
qed

lemma run_thread_now:
  "run_thread i c s = Some s' \<Longrightarrow> now s' = now s"
  by (cases c) (auto simp: set_thread_def split: if_splits)

lemma exec_now:
  assumes "exec ev s = Some s'"
  shows "now s \<le> now s'"
proof (cases ev)
  case (Run i)
  with assms show ?thesis by (auto split: if_splits dest: run_thread_now)
next
  case (Sync i j)
  with assms show ?thesis
    by (auto split: if_splits prog.splits option.splits)
next
  case (Timeout i)
  with assms show ?thesis
    by (auto simp: set_thread_def split: if_splits prog.splits)
next
  case (CtxDone i)
  with assms show ?thesis
    by (auto simp: set_thread_def split: if_splits prog.splits option.splits)
next
  case Tick
  with assms show ?thesis by auto
next
  case (Cancel n r)
  with assms show ?thesis by (auto split: option.splits)
qed

lemma run_closed: "run evs s = Some t \<Longrightarrow> is_closed s f \<Longrightarrow> is_closed t f"
proof (induction evs arbitrary: s)
  case Nil
  then show ?case by simp
next
  case (Cons ev evs)
  then show ?case by (auto split: option.splits dest: exec_closed)
qed

lemma run_length: "run evs s = Some t \<Longrightarrow> length (threads s) \<le> length (threads t)"
proof (induction evs arbitrary: s)
  case Nil
  then show ?case by simp
next
  case (Cons ev evs)
  then show ?case by (fastforce split: option.splits dest: exec_length)
qed

lemma run_now: "run evs s = Some t \<Longrightarrow> now s \<le> now t"
proof (induction evs arbitrary: s)
  case Nil
  then show ?case by simp
next
  case (Cons ev evs)
  then show ?case by (fastforce split: option.splits dest: exec_now)
qed

lemma exec_Sync_Some:
  "exec (Sync i j) s = Some s' \<longleftrightarrow>
     (i < length (threads s) \<and> j < length (threads s) \<and> i \<noteq> j \<and>
      (\<exists>f p k kr. threads s ! i = Send f p k \<and> receiving (threads s ! j) = Some (f, kr) \<and>
         is_open s f \<and> s' = s\<lparr>threads := (threads s)[i := k, j := kr p]\<rparr>))"
  by (cases "threads s ! i"; cases "receiving (threads s ! j)") (auto split: if_splits)

lemma exec_Timeout_Some:
  "exec (Timeout i) s = Some s' \<longleftrightarrow>
     (i < length (threads s) \<and>
      (\<exists>f timer k kt. threads s ! i = Select_Timer f timer k kt \<and> timer \<le> now s \<and>
         s' = set_thread i kt s))"
  by (cases "threads s ! i") auto

lemma exec_CtxDone_Some:
  "exec (CtxDone i) s = Some s' \<longleftrightarrow>
     (i < length (threads s) \<and>
      (\<exists>f ctx k kd reason. threads s ! i = Select_Done f ctx k kd \<and> ctx_Err s ctx = Some reason \<and>
         s' = set_thread i (kd (Some reason)) s))"
  by (cases "threads s ! i"; cases "ctx_Err s (case threads s ! i of Select_Done f ctx k kd \<Rightarrow> ctx)") auto

lemma Send_on_closed:
  assumes "is_closed t f" "i < length (threads t)" "threads t ! i = Send f p k"
    and "moves ev i" "exec ev t = Some t'"
  shows "ev = Run i \<and> t' = set_thread i Panic t"
proof (cases ev)
  case (Run a)
  with assms show ?thesis by (auto split: if_splits)
next
  case (Sync a b)
  with assms(5) have "exec (Sync a b) t = Some t'" by simp
  then obtain g q k' kr where *: "threads t ! a = Send g q k'"
      "receiving (threads t ! b) = Some (g, kr)" "is_open t g"
    unfolding exec_Sync_Some by blast
  from assms(4) Sync have "a = i \<or> b = i" by simp
  then show ?thesis
  proof
    assume "a = i"
    with * assms(1,3) show ?thesis by (simp add: is_open_def is_closed_def)
  next
    assume "b = i"
    with * assms(3) show ?thesis by simp
  qed
next
  case (Timeout a)
  with assms show ?thesis by (simp add: exec_Timeout_Some)
next
  case (CtxDone a)
  with assms show ?thesis by (simp add: exec_CtxDone_Some)
next
  case Tick
  with assms show ?thesis by simp
next
  case (Cancel n r)
  with assms show ?thesis by simp
qed

lemma sendAndClose_completes:
  assumes "run [Sync p j, Run p] s = Some s2" "threads s ! p = sendAndClose f pl k"
  shows "is_closed s2 f \<and> threads s2 ! p = k"
proof -
  from assms(1) obtain s1 where s1: "exec (Sync p j) s = Some s1" and s2: "exec (Run p) s1 = Some s2"
    by (auto split: option.splits)
  from s1 assms(2) obtain kr where kr:
    "is_open s f" "s1 = s\<lparr>threads := (threads s)[p := Close f k, j := kr pl]\<rparr>"
    "p < length (threads s)" "j < length (threads s)" "p \<noteq> j"
    unfolding exec_Sync_Some sendAndClose_def by auto
  then have t1: "threads s1 ! p = Close f k" "is_open s1 f" "p < length (threads s1)"
    by (simp_all add: is_open_def)
  with s2 show ?thesis
    by (auto simp: is_closed_def is_open_def)
qed

lemma run_then: "run xs s = Some t \<Longrightarrow> run ys t = Some u \<Longrightarrow> run (xs @ ys) s = Some u"
  by (induction xs arbitrary: s) (auto split: option.splits)

lemma Await_on_closed:
  assumes "is_closed t f" "m < length (threads t)" "threads t ! m = Await f km"
    and "moves ev m" "exec ev t = Some t'"
  shows "ev = Run m \<and> t' = set_thread m (km (0, None)) t"
proof (cases ev)
  case (Run a)
  with assms show ?thesis by (auto simp: Await_def zero_payload_def split: if_splits)
next
  case (Sync a b)
  with assms(5) have "exec (Sync a b) t = Some t'" by simp
  then obtain g q k' kr where *: "threads t ! a = Send g q k'"
      "receiving (threads t ! b) = Some (g, kr)" "is_open t g"
    unfolding exec_Sync_Some by blast
  from assms(4) Sync have "a = m \<or> b = m" by simp
  then show ?thesis
  proof
    assume "a = m"
    with * assms(3) show ?thesis by (simp add: Await_def)
  next
    assume "b = m"
    with * assms(1,3) show ?thesis by (simp add: Await_def is_open_def is_closed_def)
  qed
next
  case (Timeout a)
  with assms show ?thesis by (simp add: exec_Timeout_Some Await_def)
next
  case (CtxDone a)
  with assms show ?thesis by (simp add: exec_CtxDone_Some Await_def)
next
  case Tick
  with assms show ?thesis by simp
next
  case (Cancel n r)
  with assms show ?thesis by simp
qed

lemma sendAndClose_then_Await:
  assumes "threads s ! i = sendAndClose f pl k" "threads s ! j = Await f kj"
    and "run (Sync i j # Run i # evs) s = Some t"
    and "m < length (threads t)" "threads t ! m = Await f km"
  shows "exec (Sync i j) s =
           Some (s\<lparr>threads := (threads s)[i := Close f k, j := kj (val pl, err pl)]\<rparr>) \<and>
         exec (Run m) t = Some (set_thread m (km (0, None)) t) \<and>
         (\<forall>ev t'. moves ev m \<and> exec ev t = Some t' \<longrightarrow>
            ev = Run m \<and> t' = set_thread m (km (0, None)) t)"
proof -
  from assms(3) obtain s1 s2 where s1: "exec (Sync i j) s = Some s1"
    and s2: "exec (Run i) s1 = Some s2" and t: "run evs s2 = Some t"
    by (auto split: option.splits)
  from s1 assms(1,2) have first: "exec (Sync i j) s =
      Some (s\<lparr>threads := (threads s)[i := Close f k, j := kj (val pl, err pl)]\<rparr>)"
    unfolding exec_Sync_Some sendAndClose_def Await_def by auto
  from s1 s2 have "run [Sync i j, Run i] s = Some s2" by simp
  from sendAndClose_completes[OF this assms(1)] have "is_closed s2 f" by simp
  with t have closed: "is_closed t f" by (rule run_closed)
  from closed assms(4,5) have "exec (Run m) t = Some (set_thread m (km (0, None)) t)"
    by (simp add: Await_def zero_payload_def)
  moreover have "\<forall>ev t'. moves ev m \<and> exec ev t = Some t' \<longrightarrow>
      ev = Run m \<and> t' = set_thread m (km (0, None)) t"
    using Await_on_closed[OF closed assms(4,5)] by blast
  ultimately show ?thesis using first by blast
qed

lemma Run_enabled: "exec (Run i) s \<noteq> None \<Longrightarrow> enabled s i"
  by (simp add: enabled_def)

lemma Timeout_enabled: "exec (Timeout i) s \<noteq> None \<Longrightarrow> enabled s i"
  by (simp add: enabled_def)

lemma Go_stays_enabled:
  assumes "i < length (threads s)" "threads s ! i = Go c k"
  shows "stays_enabled s i"
  unfolding stays_enabled_def
proof (intro allI impI)
  fix evs t assume a: "run evs s = Some t \<and> threads t ! i = threads s ! i"
  with run_length[of evs s t] assms have "i < length (threads t)" "threads t ! i = Go c k"
    by auto
  then show "enabled t i" by (intro Run_enabled) simp
qed

lemma Make_stays_enabled:
  assumes "i < length (threads s)" "threads s ! i = Make k"
  shows "stays_enabled s i"
  unfolding stays_enabled_def
proof (intro allI impI)
  fix evs t assume a: "run evs s = Some t \<and> threads t ! i = threads s ! i"
  with run_length[of evs s t] assms have "i < length (threads t)" "threads t ! i = Make k"
    by auto
  then show "enabled t i" by (intro Run_enabled) simp
qed

lemma After_stays_enabled:
  assumes "i < length (threads s)" "threads s ! i = After d k"
  shows "stays_enabled s i"
  unfolding stays_enabled_def
proof (intro allI impI)
  fix evs t assume a: "run evs s = Some t \<and> threads t ! i = threads s ! i"
  with run_length[of evs s t] assms have "i < length (threads t)" "threads t ! i = After d k"
    by auto
  then show "enabled t i" by (intro Run_enabled) simp
qed

lemma Select_Timer_stays_enabled:
  assumes "i < length (threads s)" "threads s ! i = Select_Timer f timer k kt" "timer \<le> now s"
  shows "stays_enabled s i"
  unfolding stays_enabled_def
proof (intro allI impI)
  fix evs t assume a: "run evs s = Some t \<and> threads t ! i = threads s ! i"
  with run_length[of evs s t] run_now[of evs s t] assms
  have "i < length (threads t)" "threads t ! i = Select_Timer f timer k kt" "timer \<le> now t"
    by auto
  then show "enabled t i" by (intro Timeout_enabled) simp
qed

lemma Send_enabled_iff:
  assumes "i < length (threads s)" "threads s ! i = Send f p k"
  shows "enabled s i \<longleftrightarrow>
           is_closed s f \<or>
           (is_open s f \<and> (\<exists>j<length (threads s). j \<noteq> i \<and>
              (\<exists>kj. receiving (threads s ! j) = Some (f, kj))))"
proof -
  have r: "exec (Run i) s \<noteq> None \<longleftrightarrow> is_closed s f" using assms by simp
  have t: "exec (Timeout i) s = None" using assms by simp
  have c: "exec (CtxDone i) s = None" using assms by simp
  have rcv: "\<And>j. exec (Sync j i) s = None"
  proof -
    fix j show "exec (Sync j i) s = None"
      using assms exec_Sync_Some[of j i s] by (cases "exec (Sync j i) s") auto
  qed
  have snd: "\<And>j. exec (Sync i j) s \<noteq> None \<longleftrightarrow>
      (j < length (threads s) \<and> j \<noteq> i \<and> is_open s f \<and> (\<exists>kj. receiving (threads s ! j) = Some (f, kj)))"
  proof -
    fix j
    have "exec (Sync i j) s \<noteq> None \<longleftrightarrow> (\<exists>s'. exec (Sync i j) s = Some s')" by auto
    also have "\<dots> \<longleftrightarrow> (j < length (threads s) \<and> j \<noteq> i \<and> is_open s f \<and>
        (\<exists>kj. receiving (threads s ! j) = Some (f, kj)))"
      unfolding exec_Sync_Some using assms by auto
    finally show "exec (Sync i j) s \<noteq> None \<longleftrightarrow>
      (j < length (threads s) \<and> j \<noteq> i \<and> is_open s f \<and> (\<exists>kj. receiving (threads s ! j) = Some (f, kj)))" .
  qed
  show ?thesis
    unfolding enabled_def r t c rcv snd by auto
qed

lemma Recv_enabled_iff:
  assumes "i < length (threads s)" "threads s ! i = Recv f k"
  shows "enabled s i \<longleftrightarrow>
           is_closed s f \<or>
           (is_open s f \<and> (\<exists>j<length (threads s). j \<noteq> i \<and>
              (\<exists>p kj. threads s ! j = Send f p kj)))"
proof -
  have r: "exec (Run i) s \<noteq> None \<longleftrightarrow> is_closed s f" using assms by simp
  have t: "exec (Timeout i) s = None" using assms by simp
  have c: "exec (CtxDone i) s = None" using assms by simp
  have snd: "\<And>j. exec (Sync i j) s = None"
  proof -
    fix j show "exec (Sync i j) s = None"
      using assms exec_Sync_Some[of i j s] by (cases "exec (Sync i j) s") auto
  qed
  have rcv: "\<And>j. exec (Sync j i) s \<noteq> None \<longleftrightarrow>
      (j < length (threads s) \<and> j \<noteq> i \<and> is_open s f \<and> (\<exists>p kj. threads s ! j = Send f p kj))"
  proof -
    fix j
    have "exec (Sync j i) s \<noteq> None \<longleftrightarrow> (\<exists>s'. exec (Sync j i) s = Some s')" by auto
    also have "\<dots> \<longleftrightarrow> (j < length (threads s) \<and> j \<noteq> i \<and> is_open s f \<and>
        (\<exists>p kj. threads s ! j = Send f p kj))"
      unfolding exec_Sync_Some using assms by auto
    finally show "exec (Sync j i) s \<noteq> None \<longleftrightarrow>
      (j < length (threads s) \<and> j \<noteq> i \<and> is_open s f \<and> (\<exists>p kj. threads s ! j = Send f p kj))" .
  qed
  show ?thesis
    unfolding enabled_def r t c rcv snd by auto
qed

lemma unresolved_no_sender:
  "unresolved s f \<Longrightarrow> j < length (threads s) \<Longrightarrow> threads s ! j \<noteq> Send f p k"
proof
  assume u: "unresolved s f" and j: "j < length (threads s)" and e: "threads s ! j = Send f p k"
  from u have "\<forall>c \<in> set (threads s). sending c \<noteq> Some f"
    by (simp add: unresolved_def list_all_iff)
  with j have "sending (threads s ! j) \<noteq> Some f" by simp
  with e show False by simp
qed

lemma receiver_moves:
  assumes "receiving (threads t ! n) = Some (f, kr)" "moves ev n" "exec ev t = Some t'"
  shows "(\<exists>a p ka. ev = Sync a n \<and> threads t ! a = Send f p ka \<and> is_open t f \<and>
            t' = t\<lparr>threads := (threads t)[a := ka, n := kr p]\<rparr>) \<or>
         (ev = Run n \<and> is_closed t f \<and> t' = set_thread n (kr zero_payload) t) \<or>
         (\<exists>timer k kt. ev = Timeout n \<and> threads t ! n = Select_Timer f timer k kt \<and>
            timer \<le> now t \<and> t' = set_thread n kt t) \<or>
         (\<exists>ctx k kd r. ev = CtxDone n \<and> threads t ! n = Select_Done f ctx k kd \<and>
            ctx_Err t ctx = Some r \<and> t' = set_thread n (kd (Some r)) t)"
proof (cases ev)
  case (Run a)
  with assms have a: "a = n" "n < length (threads t)" "run_thread n (threads t ! n) t = Some t'"
    by (auto split: if_splits)
  with assms(1) have "is_closed t f \<and> t' = set_thread n (kr zero_payload) t"
    by (cases "threads t ! n") (auto split: if_splits)
  with Run a show ?thesis by simp
next
  case (Sync a b)
  with assms(3) have "exec (Sync a b) t = Some t'" by simp
  then obtain g q k' kr' where *: "threads t ! a = Send g q k'"
      "receiving (threads t ! b) = Some (g, kr')" "is_open t g"
      "t' = t\<lparr>threads := (threads t)[a := k', b := kr' q]\<rparr>"
    unfolding exec_Sync_Some by blast
  from assms(2) Sync have "a = n \<or> b = n" by simp
  then show ?thesis
  proof
    assume "a = n"
    with * assms(1) show ?thesis by simp
  next
    assume "b = n"
    with * assms(1) Sync show ?thesis by auto
  qed
next
  case (Timeout a)
  with assms(2,3) have "exec (Timeout n) t = Some t'" by simp
  then obtain g timer k kt where "threads t ! n = Select_Timer g timer k kt"
      "timer \<le> now t" "t' = set_thread n kt t"
    unfolding exec_Timeout_Some by blast
  with assms(1,2) Timeout show ?thesis by auto
next
  case (CtxDone a)
  with assms(2,3) have "exec (CtxDone n) t = Some t'" by simp
  then obtain g ctx k kd r where "threads t ! n = Select_Done g ctx k kd"
      "ctx_Err t ctx = Some r" "t' = set_thread n (kd (Some r)) t"
    unfolding exec_CtxDone_Some by blast
  with assms(1,2) CtxDone show ?thesis by auto
next
  case Tick
  with assms show ?thesis by simp
next
  case (Cancel n r)
  with assms show ?thesis by simp
qed



lemma update_after_set_thread:
  "(set_thread b c s)\<lparr>threads := (threads (set_thread b c s))[a := x, b := y]\<rparr> =
   s\<lparr>threads := (threads s)[a := x, b := y]\<rparr>"
  by (cases "a = b") (simp_all add: set_thread_def list_update_swap[of a b])

section \<open>The claims\<close>

text \<open>
  Claim C1, as stated, fails: in \<open>value_then_await\<close> the \<open>Await\<close> that starts after
  \<open>Value\<close> with 42 has returned gets the zero value, not 42.
\<close>

theorem Await_after_Value_counterexample:
  "run [Run 0, Run 0, Sync 1 0, Run 1, Run 1] (start value_then_await) =
     Some \<lparr>threads = [Return2 (42, None), Return2 (0, None)], chans = [True], now = 0,
           cancelled = (\<lambda>n. None)\<rparr> \<and>
   Return2 (0, None) \<noteq> (Return2 (42, None) :: int prog)"
  by (simp add: start_def value_then_await_def NewFuture_def Value_def sendAndClose_def
      Await_def zero_payload_def is_open_def is_closed_def set_thread_def)

text \<open>
  Claim C1, amended. \<open>Value\<close> with \<open>v\<close> hands \<open>(v, nil)\<close> to one \<open>Await\<close>, the one whose
  receive meets its send. Once \<open>Value\<close> has returned (the send was received and the channel
  is closed), every \<open>Await\<close> on the future that has not returned yet can take one step
  only, and returns the zero value and a nil error: the consumers that await after the
  resolution all observe that same outcome.
\<close>

theorem Value_reaches_one_Await:
  assumes "threads s ! i = Value f v k" "threads s ! j = Await f kj"
    and "run (Sync i j # Run i # evs) s = Some t"
    and "m < length (threads t)" "threads t ! m = Await f km"
  shows "exec (Sync i j) s =
           Some (s\<lparr>threads := (threads s)[i := Close f k, j := kj (v, None)]\<rparr>) \<and>
         exec (Run m) t = Some (set_thread m (km (0, None)) t) \<and>
         (\<forall>ev t'. moves ev m \<and> exec ev t = Some t' \<longrightarrow>
            ev = Run m \<and> t' = set_thread m (km (0, None)) t)"
  using sendAndClose_then_Await[of s i f "zero_payload\<lparr>val := v\<rparr>" k j kj evs t m km] assms
  by (simp add: Value_def zero_payload_def)

theorem Value_reaches_one_Await_witness:
  "run [Run 0, Run 0, Sync 1 0, Run 1, Run 1] (start value_then_await) =
     Some \<lparr>threads = [Return2 (42, None), Return2 (0, None)], chans = [True], now = 0,
           cancelled = (\<lambda>n. None)\<rparr>"
proof -
  let ?s = "\<lparr>threads = [Await 0 Return2, Value 0 42 (Await 0 Return2)],
             chans = [False], now = 0, cancelled = (\<lambda>n. None)\<rparr> :: int state"
  let ?t = "\<lparr>threads = [Return2 (42, None), Await 0 Return2],
             chans = [True], now = 0, cancelled = (\<lambda>n. None)\<rparr> :: int state"
  have a: "run [Run 0, Run 0] (start value_then_await) = Some ?s"
    by (simp add: start_def value_then_await_def NewFuture_def)
  have h1: "threads ?s ! 1 = Value 0 42 (Await 0 Return2)" by simp
  have h2: "threads ?s ! 0 = Await 0 Return2" by simp
  have h3: "run (Sync 1 0 # Run 1 # []) ?s = Some ?t"
    by (simp add: Value_def sendAndClose_def Await_def is_open_def zero_payload_def)
  have h4: "1 < length (threads ?t)" by simp
  have h5: "threads ?t ! 1 = Await 0 Return2" by simp
  from Value_reaches_one_Await[OF h1 h2 h3 h4 h5]
  have "exec (Run 1) ?t = Some (set_thread 1 (Return2 (0, None)) ?t)" by blast
  then have c: "run [Run 1] ?t =
      Some \<lparr>threads = [Return2 (42, None), Return2 (0, None)], chans = [True], now = 0,
            cancelled = (\<lambda>n. None)\<rparr>"
    by (simp add: set_thread_def)
  from run_then[OF a run_then[OF h3 c]] show ?thesis by (simp only: append.simps)
qed

text \<open>
  Claim C2. Once a first \<open>Resolve\<close> on a future has completed (its send was received and
  it has closed the channel), a second \<open>Resolve\<close> on the same future can do one thing
  only: panic, on its send. The panic changes nothing but the panicking goroutine: the
  future stays closed, no goroutine receives the second payload, and the receiver of the
  first call has the first payload.
\<close>

theorem second_Resolve_panics:
  assumes "threads s ! p = Resolve f v1 e1 k1"
    and "run (Sync p j # Run p # evs) s = Some t"
    and "i < length (threads t)" "threads t ! i = Resolve f v2 e2 k2"
  shows "(\<exists>kr. receiving (threads s ! j) = Some (f, kr) \<and>
            exec (Sync p j) s =
              Some (s\<lparr>threads := (threads s)[p := Close f k1, j := kr \<lparr>val = v1, err = e1\<rparr>]\<rparr>)) \<and>
         exec (Run i) t = Some (set_thread i Panic t) \<and>
         (\<forall>ev t'. moves ev i \<and> exec ev t = Some t' \<longrightarrow> ev = Run i \<and> t' = set_thread i Panic t)"
proof -
  from assms(2) obtain s1 s2 where s1: "exec (Sync p j) s = Some s1"
    and s2: "exec (Run p) s1 = Some s2" and t: "run evs s2 = Some t"
    by (auto split: option.splits)
  from s1 assms(1) have first: "\<exists>kr. receiving (threads s ! j) = Some (f, kr) \<and>
      exec (Sync p j) s =
        Some (s\<lparr>threads := (threads s)[p := Close f k1, j := kr \<lparr>val = v1, err = e1\<rparr>]\<rparr>)"
    unfolding exec_Sync_Some Resolve_def sendAndClose_def by auto
  from s1 s2 have "run [Sync p j, Run p] s = Some s2" by simp
  from sendAndClose_completes[OF this] assms(1) have "is_closed s2 f"
    by (simp add: Resolve_def)
  with t have closed: "is_closed t f" by (rule run_closed)
  have send: "threads t ! i = Send f \<lparr>val = v2, err = e2\<rparr> (Close f k2)"
    using assms(4) by (simp add: Resolve_def sendAndClose_def)
  from closed assms(3) send have "exec (Run i) t = Some (set_thread i Panic t)"
    by simp
  moreover have "\<forall>ev t'. moves ev i \<and> exec ev t = Some t' \<longrightarrow> ev = Run i \<and> t' = set_thread i Panic t"
    using Send_on_closed[OF closed assms(3) send] by blast
  ultimately show ?thesis using first by blast
qed

theorem second_Resolve_panics_witness:
  "run [Run 0, Run 0, Sync 0 1, Run 0, Run 0] (start resolve_twice) =
     Some \<lparr>threads = [Panic, Return2 (1, None)], chans = [True], now = 0,
           cancelled = (\<lambda>n. None)\<rparr>"
proof -
  let ?s = "\<lparr>threads = [Resolve 0 1 None (Resolve 0 2 None Done), Await 0 Return2],
             chans = [False], now = 0, cancelled = (\<lambda>n. None)\<rparr> :: int state"
  let ?t = "\<lparr>threads = [Resolve 0 2 None Done, Return2 (1, None)],
             chans = [True], now = 0, cancelled = (\<lambda>n. None)\<rparr> :: int state"
  have a: "run [Run 0, Run 0] (start resolve_twice) = Some ?s"
    by (simp add: start_def resolve_twice_def NewFuture_def)
  have h1: "threads ?s ! 0 = Resolve 0 1 None (Resolve 0 2 None Done)" by simp
  have h2: "run (Sync 0 1 # Run 0 # []) ?s = Some ?t"
    by (simp add: Resolve_def sendAndClose_def Await_def is_open_def)
  have h3: "0 < length (threads ?t)" by simp
  have h4: "threads ?t ! 0 = Resolve 0 2 None Done" by simp
  from second_Resolve_panics[OF h1 h2 h3 h4]
  have "exec (Run 0) ?t = Some (set_thread 0 Panic ?t)" by blast
  then have c: "run [Run 0] ?t =
      Some \<lparr>threads = [Panic, Return2 (1, None)], chans = [True], now = 0,
            cancelled = (\<lambda>n. None)\<rparr>"
    by (simp add: set_thread_def)
  from run_then[OF a run_then[OF h2 c]] show ?thesis by (simp only: append.simps)
qed

text \<open>
  Claim C3, as stated, fails: \<open>Resolve\<close> blocks its caller. In \<open>resolve_alone\<close> the
  goroutine that made the future calls \<open>Resolve\<close> with no goroutine receiving, and no event
  can move it.
\<close>

theorem Resolve_blocks_counterexample:
  "run [Run 0] (start resolve_alone) =
     Some \<lparr>threads = [Resolve 0 42 None (Await 0 Return2)], chans = [False], now = 0,
           cancelled = (\<lambda>n. None)\<rparr> \<and>
   \<not> enabled \<lparr>threads = [Resolve 0 42 None (Await 0 Return2)], chans = [False], now = 0,
           cancelled = (\<lambda>n. None)\<rparr> 0"
  by (simp add: start_def resolve_alone_def NewFuture_def Resolve_def sendAndClose_def
      enabled_def is_closed_def)

text \<open>
  Claim C3, amended. \<open>Then\<close> (both variants), \<open>Async\<close> and \<open>Get\<close> never block their caller:
  at each of their steps the caller is enabled, and stays so whatever the other goroutines
  do. \<open>Resolve\<close> blocks: its caller is enabled only if the future is closed already (it
  panics) or the future is open and another goroutine is ready to receive from it.
  \<open>Await\<close> blocks too: its caller is enabled only if the future is closed or another
  goroutine is ready to send on it.
\<close>

theorem Resolve_blocks_others_do_not:
  assumes "i < length (threads s)"
  shows "(threads s ! i = Then f consumer k \<longrightarrow>
            stays_enabled s i \<and>
            exec (Run i) s =
              Some (s\<lparr>threads := (threads s)[i := k] @ [Await f (\<lambda>(v, e). consumer v e Done)]\<rparr>)) \<and>
         (threads s ! i = Then_ctx f ctx consumer' k \<longrightarrow>
            stays_enabled s i \<and>
            exec (Run i) s =
              Some (s\<lparr>threads := (threads s)[i := k] @
                      [Await_ctx f ctx (\<lambda>(v, e). consumer' v e Done)]\<rparr>)) \<and>
         (threads s ! i = Async provider ka \<longrightarrow>
            stays_enabled s i \<and>
            (\<exists>s1. exec (Run i) s = Some s1 \<and> stays_enabled s1 i \<and>
               (\<exists>s2. exec (Run i) s1 = Some s2 \<and> threads s2 ! i = ka (length (chans s))))) \<and>
         (threads s ! i = Get f kg \<longrightarrow>
            stays_enabled s i \<and>
            (\<exists>s1. exec (Run i) s = Some s1 \<and> stays_enabled s1 i)) \<and>
         (threads s ! i = Resolve f v e kr \<longrightarrow>
            (enabled s i \<longleftrightarrow>
               is_closed s f \<or>
               (is_open s f \<and> (\<exists>j<length (threads s). j \<noteq> i \<and>
                  (\<exists>kj. receiving (threads s ! j) = Some (f, kj)))))) \<and>
         (threads s ! i = Await f kw \<longrightarrow>
            (enabled s i \<longleftrightarrow>
               is_closed s f \<or>
               (is_open s f \<and> (\<exists>j<length (threads s). j \<noteq> i \<and>
                  (\<exists>p kj. threads s ! j = Send f p kj)))))"
proof (intro conjI impI)
  assume "threads s ! i = Then f consumer k"
  then have g: "threads s ! i = Go (Await f (\<lambda>(v, e). consumer v e Done)) k"
    by (simp add: Then_def)
  from Go_stays_enabled[OF assms g] show "stays_enabled s i" .
  from assms g show "exec (Run i) s =
      Some (s\<lparr>threads := (threads s)[i := k] @ [Await f (\<lambda>(v, e). consumer v e Done)]\<rparr>)"
    by simp
next
  assume "threads s ! i = Then_ctx f ctx consumer' k"
  then have g: "threads s ! i = Go (Await_ctx f ctx (\<lambda>(v, e). consumer' v e Done)) k"
    by (simp add: Then_ctx_def)
  from Go_stays_enabled[OF assms g] show "stays_enabled s i" .
  from assms g show "exec (Run i) s =
      Some (s\<lparr>threads := (threads s)[i := k] @
              [Await_ctx f ctx (\<lambda>(v, e). consumer' v e Done)]\<rparr>)"
    by simp
next
  assume "threads s ! i = Async provider ka"
  then have m: "threads s ! i =
      Make (\<lambda>f. Go (provider (\<lambda>(v, e). Resolve f v e Done)) (ka f))"
    by (simp add: Async_def NewFuture_def)
  from Make_stays_enabled[OF assms m] show "stays_enabled s i" .
  let ?n = "length (chans s)"
  let ?c = "Go (provider (\<lambda>(v, e). Resolve ?n v e Done)) (ka ?n)"
  let ?s1 = "s\<lparr>threads := (threads s)[i := ?c], chans := chans s @ [False]\<rparr>"
  let ?s2 = "?s1\<lparr>threads := (threads ?s1)[i := ka ?n] @
               [provider (\<lambda>(v, e). Resolve ?n v e Done)]\<rparr>"
  from assms m have 1: "exec (Run i) s = Some ?s1" by simp
  from assms have i1: "i < length (threads ?s1)" and g1: "threads ?s1 ! i = ?c" by simp_all
  from Go_stays_enabled[OF i1 g1] have 2: "stays_enabled ?s1 i" .
  from i1 g1 have 3: "exec (Run i) ?s1 = Some ?s2" by simp
  from assms have 4: "threads ?s2 ! i = ka ?n" by (simp add: nth_append)
  from 1 2 3 4 show "\<exists>s1. exec (Run i) s = Some s1 \<and> stays_enabled s1 i \<and>
      (\<exists>s2. exec (Run i) s1 = Some s2 \<and> threads s2 ! i = ka (length (chans s)))"
    by blast
next
  assume "threads s ! i = Get f kg"
  then have a: "threads s ! i =
      After 0 (\<lambda>timer. Select_Timer f timer
        (\<lambda>payload. kg \<lparr>Present = True, OptValue = val payload, Err = err payload\<rparr>)
        (kg \<lparr>Present = False, OptValue = 0, Err = None\<rparr>))"
    by (simp add: Get_def AwaitWithTimeout_def zeroDuration_def)
  from After_stays_enabled[OF assms a] show "stays_enabled s i" .
  let ?c = "Select_Timer f (now s)
        (\<lambda>payload. kg \<lparr>Present = True, OptValue = val payload, Err = err payload\<rparr>)
        (kg \<lparr>Present = False, OptValue = 0, Err = None\<rparr>)"
  let ?s1 = "set_thread i ?c s"
  from assms a have 1: "exec (Run i) s = Some ?s1" by simp
  from assms have "i < length (threads ?s1)" "threads ?s1 ! i = ?c" "now s \<le> now ?s1"
    by (simp_all add: set_thread_def)
  from Select_Timer_stays_enabled[OF this] have "stays_enabled ?s1 i" .
  with 1 show "\<exists>s1. exec (Run i) s = Some s1 \<and> stays_enabled s1 i" by blast
next
  assume "threads s ! i = Resolve f v e kr"
  then have "threads s ! i = Send f \<lparr>val = v, err = e\<rparr> (Close f kr)"
    by (simp add: Resolve_def sendAndClose_def)
  from Send_enabled_iff[OF assms this]
  show "enabled s i \<longleftrightarrow>
      is_closed s f \<or>
      (is_open s f \<and> (\<exists>j<length (threads s). j \<noteq> i \<and>
         (\<exists>kj. receiving (threads s ! j) = Some (f, kj))))" .
next
  assume "threads s ! i = Await f kw"
  then have "threads s ! i = Recv f (\<lambda>payload. kw (val payload, err payload))"
    by (simp add: Await_def)
  from Recv_enabled_iff[OF assms this]
  show "enabled s i \<longleftrightarrow>
      is_closed s f \<or>
      (is_open s f \<and> (\<exists>j<length (threads s). j \<noteq> i \<and>
         (\<exists>p kj. threads s ! j = Send f p kj)))" .
qed

theorem Resolve_blocks_others_do_not_witness:
  "stays_enabled all_operations 0 \<and> stays_enabled all_operations 1 \<and>
   stays_enabled all_operations 2 \<and> stays_enabled all_operations 3 \<and>
   \<not> enabled all_operations 4 \<and> \<not> enabled all_operations 5 \<and>
   enabled (all_operations\<lparr>threads := threads all_operations @ [Await 1 Return2]\<rparr>) 4"
proof -
  have t: "threads all_operations ! 0 = Then 0 (\<lambda>v e k. k) Done"
      "threads all_operations ! 1 = Then_ctx 0 Background (\<lambda>v e k. k) Done"
      "threads all_operations ! 2 = Async (\<lambda>k. k (42, None)) (\<lambda>f. Done)"
      "threads all_operations ! 3 = Get 0 ReturnOpt"
      "threads all_operations ! 4 = Resolve 1 42 None Done"
      "threads all_operations ! 5 = Await 0 Return2"
    by (simp_all add: all_operations_def)
  have l: "0 < length (threads all_operations)" "1 < length (threads all_operations)"
      "2 < length (threads all_operations)" "3 < length (threads all_operations)"
      "4 < length (threads all_operations)" "5 < length (threads all_operations)"
    by (simp_all add: all_operations_def)
  let ?u = "all_operations\<lparr>threads := threads all_operations @ [Await 1 Return2]\<rparr>"
  have u: "4 < length (threads ?u)" "threads ?u ! 4 = Resolve 1 42 None Done"
    by (simp_all add: all_operations_def)
  have "stays_enabled all_operations 0"
    using Resolve_blocks_others_do_not[OF l(1)] t(1) by blast
  moreover have "stays_enabled all_operations 1"
    using Resolve_blocks_others_do_not[OF l(2)] t(2) by blast
  moreover have "stays_enabled all_operations 2"
    using Resolve_blocks_others_do_not[OF l(3)] t(3) by blast
  moreover have "stays_enabled all_operations 3"
    using Resolve_blocks_others_do_not[OF l(4)] t(4) by blast
  moreover have "\<not> enabled all_operations 4"
  proof -
    have r: "receiving (threads all_operations ! j) \<noteq> Some (1, kj)"
      if "j < length (threads all_operations)" "j \<noteq> 4" for j kj
    proof -
      from that have "j = 0 \<or> j = 1 \<or> j = 2 \<or> j = 3 \<or> j = 5"
        by (simp add: all_operations_def) linarith
      then show ?thesis
        by (elim disjE)
           (simp_all add: all_operations_def Then_def Then_ctx_def Async_def NewFuture_def
              Get_def AwaitWithTimeout_def Await_def)
    qed
    have "\<not> is_closed all_operations 1" by (simp add: all_operations_def is_closed_def)
    with r have "\<not> (is_closed all_operations 1 \<or>
      (is_open all_operations 1 \<and> (\<exists>j<length (threads all_operations). j \<noteq> 4 \<and>
         (\<exists>kj. receiving (threads all_operations ! j) = Some (1, kj)))))"
      by fastforce
    with Resolve_blocks_others_do_not[OF l(5), where f=1 and v=42 and e=None and kr=Done] t(5)
    show ?thesis by blast
  qed
  moreover have "\<not> enabled all_operations 5"
  proof -
    have r: "threads all_operations ! j \<noteq> Send 0 p kj"
      if "j < length (threads all_operations)" "j \<noteq> 5" for j p kj
    proof -
      from that have "j = 0 \<or> j = 1 \<or> j = 2 \<or> j = 3 \<or> j = 4"
        by (simp add: all_operations_def) linarith
      then show ?thesis
        by (elim disjE)
           (simp_all add: all_operations_def Then_def Then_ctx_def Async_def NewFuture_def
              Get_def AwaitWithTimeout_def Resolve_def sendAndClose_def)
    qed
    have "\<not> is_closed all_operations 0" by (simp add: all_operations_def is_closed_def)
    with r have "\<not> (is_closed all_operations 0 \<or>
      (is_open all_operations 0 \<and> (\<exists>j<length (threads all_operations). j \<noteq> 5 \<and>
         (\<exists>p kj. threads all_operations ! j = Send 0 p kj))))"
      by fastforce
    with Resolve_blocks_others_do_not[OF l(6), where f=0 and kw=Return2] t(6)
    show ?thesis by blast
  qed
  moreover have "enabled ?u 4"
  proof -
    have "6 < length (threads ?u) \<and> (6::nat) \<noteq> 4 \<and>
        receiving (threads ?u ! 6) = Some (1, \<lambda>payload. Return2 (val payload, err payload))"
      by (simp add: all_operations_def Await_def)
    then have "is_closed ?u 1 \<or>
      (is_open ?u 1 \<and> (\<exists>j<length (threads ?u). j \<noteq> 4 \<and>
         (\<exists>kj. receiving (threads ?u ! j) = Some (1, kj))))"
      by (intro disjI2 conjI exI[of _ 6]) (simp_all add: all_operations_def is_open_def)
    with Resolve_blocks_others_do_not[OF u(1), where f=1 and v=42 and e=None and kr=Done] u(2)
    show ?thesis by blast
  qed
  ultimately show ?thesis by blast
qed

text \<open>
  Claim C4. When the context of an \<open>Await_ctx\<close> is done with reason \<open>r\<close> and the future is
  unresolved, the await can take one step only: it returns the zero value and \<open>r\<close>, the
  context's own error. The step changes nothing but the awaiting goroutine, so the future
  is as it was: still open, and a \<open>Resolve\<close> with \<open>(v, e)\<close> that comes later meets a later
  \<open>Await_ctx\<close>, which returns \<open>(v, e)\<close>.
\<close>

theorem cancelled_Await_leaves_future:
  assumes "i < length (threads s)" "threads s ! i = Await_ctx f ctx k"
    and "ctx_Err s ctx = Some r" "unresolved s f"
    and "s' = set_thread i (k (0, Some r)) s"
    and "u = s'\<lparr>threads := threads s' @ [Resolve f v e k1, Await_ctx f ctx2 k2]\<rparr>"
    and "n = length (threads s)"
  shows "exec (CtxDone i) s = Some s' \<and>
         (\<forall>ev t. moves ev i \<and> exec ev s = Some t \<longrightarrow> ev = CtxDone i \<and> t = s') \<and>
         chans s' = chans s \<and> is_open s' f \<and>
         exec (Sync n (Suc n)) u =
           Some (u\<lparr>threads := (threads u)[n := Close f k1, Suc n := k2 (v, e)]\<rparr>)"
proof -
  have sel: "threads s ! i =
      Select_Done f ctx (\<lambda>payload. k (val payload, err payload)) (\<lambda>ctx_err. k (0, ctx_err))"
    using assms(2) by (simp add: Await_ctx_def)
  then have rcv: "receiving (threads s ! i) =
      Some (f, \<lambda>payload. k (val payload, err payload))"
    by simp
  from assms(4) have op: "is_open s f" by (simp add: unresolved_def)
  have 1: "exec (CtxDone i) s = Some s'"
    using assms(1,3,5) sel by simp
  have 2: "\<forall>ev t. moves ev i \<and> exec ev s = Some t \<longrightarrow> ev = CtxDone i \<and> t = s'"
  proof (intro allI impI)
    fix ev t assume a: "moves ev i \<and> exec ev s = Some t"
    then have m: "moves ev i" and x: "exec ev s = Some t" by simp_all
    from receiver_moves[OF rcv m x] show "ev = CtxDone i \<and> t = s'"
    proof (elim disjE exE conjE)
      fix a p ka assume "ev = Sync a i" "threads s ! a = Send f p ka"
      moreover from x \<open>ev = Sync a i\<close> have "a < length (threads s)"
        by (auto split: if_splits)
      ultimately show ?thesis using unresolved_no_sender[OF assms(4)] by blast
    next
      assume "is_closed s f"
      with op show ?thesis by (simp add: is_open_def is_closed_def)
    next
      fix timer k' kt assume "threads s ! i = Select_Timer f timer k' kt"
      with sel show ?thesis by simp
    next
      fix ctx' k' kd r' assume "ev = CtxDone i" "threads s ! i = Select_Done f ctx' k' kd"
        "ctx_Err s ctx' = Some r'" "t = set_thread i (kd (Some r')) s"
      with sel assms(3,5) show ?thesis by auto
    qed
  qed
  have 3: "chans s' = chans s" "is_open s' f"
    using op assms(5) by (simp_all add: set_thread_def is_open_def)
  have len: "length (threads s') = n" using assms(5,7) by (simp add: set_thread_def)
  then have "threads u ! n = Send f \<lparr>val = v, err = e\<rparr> (Close f k1)"
      "receiving (threads u ! Suc n) = Some (f, \<lambda>payload. k2 (val payload, err payload))"
      "n < length (threads u)" "Suc n < length (threads u)" "is_open u f"
    using assms(6) 3(2)
    by (simp_all add: nth_append Resolve_def sendAndClose_def Await_ctx_def is_open_def)
  then have 4: "exec (Sync n (Suc n)) u =
      Some (u\<lparr>threads := (threads u)[n := Close f k1, Suc n := k2 (v, e)]\<rparr>)"
    by simp
  from 1 2 3 4 show ?thesis by blast
qed

theorem cancelled_Await_leaves_future_witness:
  "run [Run 0, Cancel 0 ''context canceled'', CtxDone 0] (start await_cancellable) =
     Some \<lparr>threads = [Return2 (0, Some ''context canceled'')], chans = [False], now = 0,
           cancelled = (\<lambda>n. None)(0 := Some ''context canceled'')\<rparr> \<and>
   exec (Sync 1 2)
     (\<lparr>threads = [Return2 (0, Some ''context canceled''), Resolve 0 42 None Done,
                 Await_ctx 0 Background Return2],
      chans = [False], now = 0, cancelled = (\<lambda>n. None)(0 := Some ''context canceled'')\<rparr>
      :: int state) =
     Some \<lparr>threads = [Return2 (0, Some ''context canceled''), Close 0 Done,
                 Return2 (42, None)],
      chans = [False], now = 0, cancelled = (\<lambda>n. None)(0 := Some ''context canceled'')\<rparr>"
proof -
  let ?c = "(\<lambda>n. None)(0 := Some ''context canceled'') :: nat \<Rightarrow> error"
  let ?s = "\<lparr>threads = [Await_ctx 0 (Cancellable 0) Return2], chans = [False], now = 0,
             cancelled = ?c\<rparr> :: int state"
  let ?s' = "\<lparr>threads = [Return2 (0, Some ''context canceled'')], chans = [False], now = 0,
             cancelled = ?c\<rparr> :: int state"
  let ?u = "\<lparr>threads = [Return2 (0, Some ''context canceled''), Resolve 0 42 None Done,
                 Await_ctx 0 Background Return2],
             chans = [False], now = 0, cancelled = ?c\<rparr> :: int state"
  have a: "run [Run 0, Cancel 0 ''context canceled''] (start await_cancellable) = Some ?s"
    by (simp add: start_def await_cancellable_def NewFuture_def)
  have h1: "0 < length (threads ?s)" by simp
  have h2: "threads ?s ! 0 = Await_ctx 0 (Cancellable 0) Return2" by simp
  have h3: "ctx_Err ?s (Cancellable 0) = Some ''context canceled''" by simp
  have h4: "unresolved ?s 0" by (simp add: unresolved_def is_open_def Await_ctx_def)
  have h5: "?s' = set_thread 0 (Return2 (0, Some ''context canceled'')) ?s"
    by (simp add: set_thread_def)
  have h6: "?u = ?s'\<lparr>threads := threads ?s' @ [Resolve 0 42 None Done, Await_ctx 0 Background Return2]\<rparr>"
    by simp
  have h7: "1 = length (threads ?s)" by simp
  from cancelled_Await_leaves_future[OF h1 h2 h3 h4 h5 h6 h7]
  have b: "exec (CtxDone 0) ?s = Some ?s'"
    and c: "exec (Sync 1 (Suc 1)) ?u =
      Some (?u\<lparr>threads := (threads ?u)[1 := Close 0 Done, Suc 1 := Return2 (42, None)]\<rparr>)"
    by blast+
  from b have "run [CtxDone 0] ?s = Some ?s'" by simp
  from run_then[OF a this] have "run [Run 0, Cancel 0 ''context canceled'', CtxDone 0]
      (start await_cancellable) = Some ?s'"
    by (simp only: append.simps)
  moreover from c have "exec (Sync 1 2) ?u =
     Some \<lparr>threads = [Return2 (0, Some ''context canceled''), Close 0 Done,
                 Return2 (42, None)],
      chans = [False], now = 0, cancelled = ?c\<rparr>"
    by (simp add: numeral_2_eq_2)
  ultimately show ?thesis by blast
qed

text \<open>
  Claim C5, as stated, fails: in \<open>two_thens\<close> the future is resolved with 42 and the context
  never fires, yet the second consumer is called with the zero value, which is neither
  the outcome the future was resolved with nor a cancellation error.
\<close>

theorem second_Then_gets_zero_counterexample:
  "run [Run 0, Run 0, Run 0, Sync 0 1, Run 0, Run 2] (start two_thens) =
     Some \<lparr>threads = [Done, Return2 (42, None), Return2 (0, None)], chans = [True], now = 0,
           cancelled = (\<lambda>n. None)\<rparr> \<and>
   Return2 (0, None) \<noteq> (Return2 (42, None) :: int prog)"
  by (simp add: start_def two_thens_def NewFuture_def Then_ctx_def Resolve_def sendAndClose_def
      Await_ctx_def zero_payload_def is_open_def is_closed_def set_thread_def)

text \<open>
  Claim C5, amended. \<open>Then\<close> takes one step, which needs no other goroutine: it starts a
  goroutine that awaits the future, and returns. Whatever event then moves that goroutine
  out of its await, it goes on as the consumer applied to the pair the await returns, and
  nothing else: the payload of the \<open>Resolve\<close> it met, the zero payload when the future is
  closed already, or the zero value and the context's error when the context was done.
  The variant without a context has the first two cases only.
\<close>

theorem Then_calls_consumer_with_Await_result:
  assumes "i < length (threads s)" "n = length (threads s)"
    and "run (Run i # evs) s = Some t"
    and "moves ev n" "exec ev t = Some t'"
  shows "(threads s ! i = Then_ctx f ctx consumer k \<and>
          threads t ! n = Await_ctx f ctx (\<lambda>(v, e). consumer v e Done) \<longrightarrow>
            exec (Run i) s =
              Some (s\<lparr>threads := (threads s)[i := k] @
                      [Await_ctx f ctx (\<lambda>(v, e). consumer v e Done)]\<rparr>) \<and>
            ((\<exists>a p ka. ev = Sync a n \<and> threads t ! a = Send f p ka \<and>
                threads t' ! n = consumer (val p) (err p) Done) \<or>
             (ev = Run n \<and> is_closed t f \<and> threads t' ! n = consumer 0 None Done) \<or>
             (\<exists>r. ev = CtxDone n \<and> ctx_Err t ctx = Some r \<and>
                threads t' ! n = consumer 0 (Some r) Done))) \<and>
         (threads s ! i = Then f consumer k \<and>
          threads t ! n = Await f (\<lambda>(v, e). consumer v e Done) \<longrightarrow>
            exec (Run i) s =
              Some (s\<lparr>threads := (threads s)[i := k] @
                      [Await f (\<lambda>(v, e). consumer v e Done)]\<rparr>) \<and>
            ((\<exists>a p ka. ev = Sync a n \<and> threads t ! a = Send f p ka \<and>
                threads t' ! n = consumer (val p) (err p) Done) \<or>
             (ev = Run n \<and> is_closed t f \<and> threads t' ! n = consumer 0 None Done)))"
proof -
  from assms(3) obtain s1 where s1: "exec (Run i) s = Some s1" and t: "run evs s1 = Some t"
    by (auto split: option.splits)
  have grow: "length (threads s1) = Suc n" if "threads s ! i = Go c k" for c
    using s1 assms(1,2) that by auto
  have nt: "n < length (threads t)" if "threads s ! i = Go c k" for c
    using grow[OF that] run_length[OF t] by simp
  show ?thesis
  proof (intro conjI impI)
    assume a: "threads s ! i = Then_ctx f ctx consumer k \<and>
      threads t ! n = Await_ctx f ctx (\<lambda>(v, e). consumer v e Done)"
    then have g: "threads s ! i = Go (Await_ctx f ctx (\<lambda>(v, e). consumer v e Done)) k"
      by (simp add: Then_ctx_def)
    from assms(1) g show "exec (Run i) s =
        Some (s\<lparr>threads := (threads s)[i := k] @
                [Await_ctx f ctx (\<lambda>(v, e). consumer v e Done)]\<rparr>)"
      by simp
    from a have sel: "threads t ! n =
        Select_Done f ctx (\<lambda>payload. consumer (val payload) (err payload) Done)
          (\<lambda>ctx_err. consumer 0 ctx_err Done)"
      by (simp add: Await_ctx_def)
    then have rcv: "receiving (threads t ! n) =
        Some (f, \<lambda>payload. consumer (val payload) (err payload) Done)"
      by simp
    from receiver_moves[OF rcv assms(4,5)] nt[OF g] sel
    show "(\<exists>a p ka. ev = Sync a n \<and> threads t ! a = Send f p ka \<and>
              threads t' ! n = consumer (val p) (err p) Done) \<or>
          (ev = Run n \<and> is_closed t f \<and> threads t' ! n = consumer 0 None Done) \<or>
          (\<exists>r. ev = CtxDone n \<and> ctx_Err t ctx = Some r \<and>
              threads t' ! n = consumer 0 (Some r) Done)"
      by (elim disjE exE conjE) (auto simp: set_thread_def zero_payload_def)
  next
    assume a: "threads s ! i = Then f consumer k \<and>
      threads t ! n = Await f (\<lambda>(v, e). consumer v e Done)"
    then have g: "threads s ! i = Go (Await f (\<lambda>(v, e). consumer v e Done)) k"
      by (simp add: Then_def)
    from assms(1) g show "exec (Run i) s =
        Some (s\<lparr>threads := (threads s)[i := k] @ [Await f (\<lambda>(v, e). consumer v e Done)]\<rparr>)"
      by simp
    from a have sel: "threads t ! n =
        Recv f (\<lambda>payload. consumer (val payload) (err payload) Done)"
      by (simp add: Await_def)
    then have rcv: "receiving (threads t ! n) =
        Some (f, \<lambda>payload. consumer (val payload) (err payload) Done)"
      by simp
    from receiver_moves[OF rcv assms(4,5)] nt[OF g] sel
    show "(\<exists>a p ka. ev = Sync a n \<and> threads t ! a = Send f p ka \<and>
              threads t' ! n = consumer (val p) (err p) Done) \<or>
          (ev = Run n \<and> is_closed t f \<and> threads t' ! n = consumer 0 None Done)"
      by (elim disjE exE conjE) (auto simp: set_thread_def zero_payload_def)
  qed
qed

theorem Then_calls_consumer_with_Await_result_witness:
  "run [Run 0, Run 0, Sync 0 1, Run 0] (start then_resolve) =
     Some \<lparr>threads = [Done, Return2 (42, None)], chans = [True], now = 0,
           cancelled = (\<lambda>n. None)\<rparr>"
proof -
  let ?c = "(\<lambda>v e k. Return2 (v, e)) :: int \<Rightarrow> error \<Rightarrow> int prog \<Rightarrow> int prog"
  let ?s = "\<lparr>threads = [Then_ctx 0 Background ?c (Resolve 0 42 None Done)],
             chans = [False], now = 0, cancelled = (\<lambda>n. None)\<rparr> :: int state"
  let ?t = "\<lparr>threads = [Resolve 0 42 None Done, Await_ctx 0 Background (\<lambda>(v, e). ?c v e Done)],
             chans = [False], now = 0, cancelled = (\<lambda>n. None)\<rparr> :: int state"
  let ?t' = "\<lparr>threads = [Close 0 Done, Return2 (42, None)],
             chans = [False], now = 0, cancelled = (\<lambda>n. None)\<rparr> :: int state"
  have a: "run [Run 0] (start then_resolve) = Some ?s"
    by (simp add: start_def then_resolve_def NewFuture_def)
  have h1: "0 < length (threads ?s)" by simp
  have h2: "1 = length (threads ?s)" by simp
  have h3: "run (Run 0 # []) ?s = Some ?t" by (simp add: Then_ctx_def)
  have h4: "moves (Sync 0 1) 1" by simp
  have h5: "exec (Sync 0 1) ?t = Some ?t'"
    by (simp add: Resolve_def sendAndClose_def Await_ctx_def is_open_def)
  have h6: "threads ?s ! 0 = Then_ctx 0 Background ?c (Resolve 0 42 None Done) \<and>
      threads ?t ! 1 = Await_ctx 0 Background (\<lambda>(v, e). ?c v e Done)"
    by simp
  from Then_calls_consumer_with_Await_result[OF h1 h2 h3 h4 h5] h6
  have b: "exec (Run 0) ?s =
      Some (?s\<lparr>threads := (threads ?s)[0 := Resolve 0 42 None Done] @
              [Await_ctx 0 Background (\<lambda>(v, e). ?c v e Done)]\<rparr>)"
    by blast
  then have b': "run [Run 0] ?s = Some ?t" by simp
  have c: "run [Sync 0 1, Run 0] ?t =
      Some \<lparr>threads = [Done, Return2 (42, None)], chans = [True], now = 0,
           cancelled = (\<lambda>n. None)\<rparr>"
    using h5 by (simp add: is_open_def)
  from run_then[OF a run_then[OF b' c]] show ?thesis by (simp only: append.simps)
qed





text \<open>
  Claim C8, as stated, fails: in \<open>error_then_await\<close> the \<open>Await\<close> that starts after
  \<open>Error\<close> has returned gets a nil error, not the error the future was resolved with.
\<close>

theorem Await_after_Error_counterexample:
  "run [Run 0, Run 0, Sync 1 0, Run 1, Run 1] (start error_then_await) =
     Some \<lparr>threads = [Return2 (0, Some ''boom''), Return2 (0, None)], chans = [True], now = 0,
           cancelled = (\<lambda>n. None)\<rparr> \<and>
   Return2 (0, None) \<noteq> (Return2 (0, Some ''boom'') :: int prog)"
  by (simp add: start_def error_then_await_def NewFuture_def Error_def sendAndClose_def
      Await_def zero_payload_def is_open_def is_closed_def set_thread_def)

text \<open>
  Claim C8, amended. \<open>Error\<close> with \<open>e\<close> hands the zero value and \<open>e\<close> to one \<open>Await\<close>,
  the one whose receive meets its send. Once \<open>Error\<close> has returned, every \<open>Await\<close> on the
  future that has not returned yet can take one step only, and returns the zero value and a
  nil error.
\<close>

theorem Error_reaches_one_Await:
  assumes "threads s ! i = Error f e k" "threads s ! j = Await f kj"
    and "run (Sync i j # Run i # evs) s = Some t"
    and "m < length (threads t)" "threads t ! m = Await f km"
  shows "exec (Sync i j) s =
           Some (s\<lparr>threads := (threads s)[i := Close f k, j := kj (0, e)]\<rparr>) \<and>
         exec (Run m) t = Some (set_thread m (km (0, None)) t) \<and>
         (\<forall>ev t'. moves ev m \<and> exec ev t = Some t' \<longrightarrow>
            ev = Run m \<and> t' = set_thread m (km (0, None)) t)"
  using sendAndClose_then_Await[of s i f "zero_payload\<lparr>err := e\<rparr>" k j kj evs t m km] assms
  by (simp add: Error_def zero_payload_def)

theorem Error_reaches_one_Await_witness:
  "run [Run 0, Run 0, Sync 1 0, Run 1, Run 1] (start error_then_await) =
     Some \<lparr>threads = [Return2 (0, Some ''boom''), Return2 (0, None)], chans = [True], now = 0,
           cancelled = (\<lambda>n. None)\<rparr>"
proof -
  let ?s = "\<lparr>threads = [Await 0 Return2, Error 0 (Some ''boom'') (Await 0 Return2)],
             chans = [False], now = 0, cancelled = (\<lambda>n. None)\<rparr> :: int state"
  let ?t = "\<lparr>threads = [Return2 (0, Some ''boom''), Await 0 Return2],
             chans = [True], now = 0, cancelled = (\<lambda>n. None)\<rparr> :: int state"
  have a: "run [Run 0, Run 0] (start error_then_await) = Some ?s"
    by (simp add: start_def error_then_await_def NewFuture_def)
  have h1: "threads ?s ! 1 = Error 0 (Some ''boom'') (Await 0 Return2)" by simp
  have h2: "threads ?s ! 0 = Await 0 Return2" by simp
  have h3: "run (Sync 1 0 # Run 1 # []) ?s = Some ?t"
    by (simp add: Error_def sendAndClose_def Await_def is_open_def zero_payload_def)
  have h4: "1 < length (threads ?t)" by simp
  have h5: "threads ?t ! 1 = Await 0 Return2" by simp
  from Error_reaches_one_Await[OF h1 h2 h3 h4 h5]
  have "exec (Run 1) ?t = Some (set_thread 1 (Return2 (0, None)) ?t)" by blast
  then have c: "run [Run 1] ?t =
      Some \<lparr>threads = [Return2 (0, Some ''boom''), Return2 (0, None)], chans = [True], now = 0,
            cancelled = (\<lambda>n. None)\<rparr>"
    by (simp add: set_thread_def)
  from run_then[OF a run_then[OF h3 c]] show ?thesis by (simp only: append.simps)
qed

text \<open>
  Claim C9. \<open>Value\<close> with \<open>v\<close> is \<open>Resolve\<close> with \<open>v\<close> and a nil error, and \<open>Error\<close> with
  \<open>e\<close> is \<open>Resolve\<close> with the zero value and \<open>e\<close>: the same program, so the same effect
  on the future and on whoever awaits it.
\<close>

theorem Value_Error_are_Resolve:
  "Value f v k = Resolve f v None k \<and> Error f e k = Resolve f 0 e k"
  by (simp add: Value_def Error_def Resolve_def zero_payload_def)

text \<open>
  Claim C10. On the resolution path the two variants agree. When a goroutine is in
  \<open>sendAndClose\<close> with the payload \<open>(v, e)\<close> on an open future, the await that meets it
  returns \<open>(v, e)\<close>, whether it is \<open>Await_ctx\<close> under the background context, \<open>Await\<close>, or
  \<open>AwaitWithTimeout\<close> (whose third result is then \<open>True\<close>), and leaves the same state
  behind. On a closed future the three return the zero pair. The background context
  never fires.
\<close>

theorem variants_agree_on_resolution:
  assumes "a < length (threads s)" "b < length (threads s)" "a \<noteq> b"
  shows "(threads s ! a = sendAndClose f \<lparr>val = v, err = e\<rparr> k \<and> is_open s f \<longrightarrow>
            exec (Sync a b) (set_thread b (Await_ctx f Background kb) s) =
              Some (s\<lparr>threads := (threads s)[a := Close f k, b := kb (v, e)]\<rparr>) \<and>
            exec (Sync a b) (set_thread b (Await f kb) s) =
              Some (s\<lparr>threads := (threads s)[a := Close f k, b := kb (v, e)]\<rparr>) \<and>
            run [Run b, Sync a b] (set_thread b (AwaitWithTimeout f d kt) s) =
              Some (s\<lparr>threads := (threads s)[a := Close f k, b := kt (v, e, True)]\<rparr>)) \<and>
         (is_closed s f \<longrightarrow>
            exec (Run b) (set_thread b (Await_ctx f Background kb) s) =
              Some (set_thread b (kb (0, None)) s) \<and>
            exec (Run b) (set_thread b (Await f kb) s) =
              Some (set_thread b (kb (0, None)) s) \<and>
            run [Run b, Run b] (set_thread b (AwaitWithTimeout f d kt) s) =
              Some (set_thread b (kt (0, None, True)) s)) \<and>
         exec (CtxDone b) (set_thread b (Await_ctx f Background kb) s) = None"
proof (intro conjI impI)
  assume h: "threads s ! a = sendAndClose f \<lparr>val = v, err = e\<rparr> k \<and> is_open s f"
  then have snd: "threads s ! a = Send f \<lparr>val = v, err = e\<rparr> (Close f k)" and op: "is_open s f"
    by (simp_all add: sendAndClose_def)
  have pre: "a < length (threads (set_thread b c s))" "b < length (threads (set_thread b c s))"
      "threads (set_thread b c s) ! a = Send f \<lparr>val = v, err = e\<rparr> (Close f k)"
      "threads (set_thread b c s) ! b = c" "is_open (set_thread b c s) f" for c
    using assms snd op by (simp_all add: set_thread_def is_open_def)
  show "exec (Sync a b) (set_thread b (Await_ctx f Background kb) s) =
      Some (s\<lparr>threads := (threads s)[a := Close f k, b := kb (v, e)]\<rparr>)"
    using pre[of "Await_ctx f Background kb"] assms(3)
    by (simp add: Await_ctx_def update_after_set_thread del: exec.simps add: exec_Sync_Some)
  show "exec (Sync a b) (set_thread b (Await f kb) s) =
      Some (s\<lparr>threads := (threads s)[a := Close f k, b := kb (v, e)]\<rparr>)"
    using pre[of "Await f kb"] assms(3)
    by (simp add: Await_def update_after_set_thread del: exec.simps add: exec_Sync_Some)
  let ?sel = "Select_Timer f (now s + d) (\<lambda>payload. kt (val payload, err payload, True))
      (kt (0, None, False))"
  have 1: "exec (Run b) (set_thread b (AwaitWithTimeout f d kt) s) = Some (set_thread b ?sel s)"
    using assms(2) by (simp add: AwaitWithTimeout_def set_thread_def)
  have 2: "exec (Sync a b) (set_thread b ?sel s) =
      Some (s\<lparr>threads := (threads s)[a := Close f k, b := kt (v, e, True)]\<rparr>)"
    using pre[of ?sel] assms(3)
    by (simp add: update_after_set_thread del: exec.simps add: exec_Sync_Some)
  from 1 2 show "run [Run b, Sync a b] (set_thread b (AwaitWithTimeout f d kt) s) =
      Some (s\<lparr>threads := (threads s)[a := Close f k, b := kt (v, e, True)]\<rparr>)"
    by simp
next
  assume cl: "is_closed s f"
  show "exec (Run b) (set_thread b (Await_ctx f Background kb) s) =
      Some (set_thread b (kb (0, None)) s)"
    using assms(2) cl
    by (simp add: Await_ctx_def set_thread_def is_closed_def zero_payload_def)
  show "exec (Run b) (set_thread b (Await f kb) s) = Some (set_thread b (kb (0, None)) s)"
    using assms(2) cl
    by (simp add: Await_def set_thread_def is_closed_def zero_payload_def)
  show "run [Run b, Run b] (set_thread b (AwaitWithTimeout f d kt) s) =
      Some (set_thread b (kt (0, None, True)) s)"
    using assms(2) cl
    by (simp add: AwaitWithTimeout_def set_thread_def is_closed_def zero_payload_def)
next
  show "exec (CtxDone b) (set_thread b (Await_ctx f Background kb) s) = None"
    using assms(2) by (simp add: Await_ctx_def set_thread_def)
qed

theorem variants_agree_on_resolution_witness:
  "exec (Sync 0 1) (set_thread 1 (Await_ctx 0 Background Return2) resolver_waiting) =
     Some \<lparr>threads = [Close 0 Done, Return2 (7, Some ''failed'')], chans = [False], now = 3,
           cancelled = (\<lambda>n. None)\<rparr> \<and>
   exec (Sync 0 1) (set_thread 1 (Await 0 Return2) resolver_waiting) =
     Some \<lparr>threads = [Close 0 Done, Return2 (7, Some ''failed'')], chans = [False], now = 3,
           cancelled = (\<lambda>n. None)\<rparr> \<and>
   run [Run 1, Sync 0 1] (set_thread 1 (AwaitWithTimeout 0 5 Return3) resolver_waiting) =
     Some \<lparr>threads = [Close 0 Done, Return3 (7, Some ''failed'', True)], chans = [False],
           now = 3, cancelled = (\<lambda>n. None)\<rparr>"
proof -
  have h: "0 < length (threads resolver_waiting)" "1 < length (threads resolver_waiting)"
      "(0::nat) \<noteq> 1"
    by (simp_all add: resolver_waiting_def)
  have g: "threads resolver_waiting ! 0 = sendAndClose 0 \<lparr>val = 7, err = Some ''failed''\<rparr> Done \<and>
      is_open resolver_waiting 0"
    by (simp add: resolver_waiting_def Resolve_def is_open_def)
  have u: "resolver_waiting\<lparr>threads := (threads resolver_waiting)[0 := Close 0 Done, 1 := c]\<rparr> =
      \<lparr>threads = [Close 0 Done, c], chans = [False], now = 3, cancelled = (\<lambda>n. None)\<rparr>" for c
    by (simp add: resolver_waiting_def)
  from variants_agree_on_resolution[OF h, where f=0 and v=7 and e="Some ''failed''" and k=Done
      and kb=Return2 and kt=Return3 and d=5] g
  show ?thesis unfolding u by blast
qed

end
